theory Spec2Isabelle
  imports Main
begin

section \<open>ODHF dataset service: a model of index.mjs\<close>

text \<open>
  The service keeps a CSV table in two module-level variables, resolves two logical
  columns against alias sets, and answers three data-dependent GET endpoints.
  Every function below carries the name of the JavaScript function, variable or
  handler it models. The loader is modelled in the two parts its \<^verbatim>\<open>await\<close> cuts it
  into, so that requests can be served one after the other (\<open>run\<close>) or overlapping
  (\<open>exec\<close>).
\<close>

subsection \<open>Strings\<close>

text \<open>
  A JavaScript string is modelled as a \<^typ>\<open>string\<close>. The three string methods the
  code calls are modelled on ASCII text: \<^verbatim>\<open>toLowerCase\<close> maps the letters A to Z,
  \<^verbatim>\<open>trim\<close> strips tab, line feed, vertical tab, form feed, carriage return and
  space, \<^verbatim>\<open>includes\<close> is the search for a contiguous occurrence. Characters
  outside ASCII are left alone by this \<open>toLowerCase\<close> and are not stripped by this
  \<open>trim\<close>.
\<close>

definition lower_char :: "char \<Rightarrow> char" where
  "lower_char c =
     (case map_of (zip ''ABCDEFGHIJKLMNOPQRSTUVWXYZ'' ''abcdefghijklmnopqrstuvwxyz'') c of
        Some d \<Rightarrow> d
      | None \<Rightarrow> c)"

definition toLowerCase :: "string \<Rightarrow> string" where
  "toLowerCase s = map lower_char s"

definition is_space :: "char \<Rightarrow> bool" where
  "is_space c = (c \<in> set [CHR 0x09, CHR 0x0A, CHR 0x0B, CHR 0x0C, CHR 0x0D, CHR '' ''])"

definition trim :: "string \<Rightarrow> string" where
  "trim s = rev (dropWhile is_space (rev (dropWhile is_space s)))"

fun starts_with :: "string \<Rightarrow> string \<Rightarrow> bool" where
  "starts_with s [] = True"
| "starts_with [] (c # p) = False"
| "starts_with (d # s) (c # p) = (d = c \<and> starts_with s p)"

text \<open>\<open>str_includes s p\<close> is \<^verbatim>\<open>s.includes(p)\<close>.\<close>

fun str_includes :: "string \<Rightarrow> string \<Rightarrow> bool" where
  "str_includes [] p = (p = [])"
| "str_includes (d # s) p = (starts_with (d # s) p \<or> str_includes s p)"

text \<open>The decimal numeral of a length, as a template literal prints it.\<close>

definition digit :: "nat \<Rightarrow> char" where
  "digit d = ''0123456789'' ! d"

function decimal :: "nat \<Rightarrow> string" where
  "decimal n = (if n < 10 then [digit n] else decimal (n div 10) @ [digit (n mod 10)])"
  by pat_completeness auto
termination
  by (relation "measure id") auto

declare decimal.simps [simp del]

subsection \<open>Values, rows and responses\<close>

text \<open>
  A cell is a string or \<^verbatim>\<open>null\<close>; \<^verbatim>\<open>undefined\<close>, the value of a missing key,
  is \<open>None\<close> of \<^typ>\<open>'a option\<close>. A row is the object csv-parse builds for one
  record: its keys in header order, each with its cell.
\<close>

datatype prim = Null | Str string

datatype json = Prim prim | Arr "json list" | Obj "(string \<times> json) list"

type_synonym row = "(string \<times> prim) list"

text \<open>\<open>get r c\<close> is \<^verbatim>\<open>r[c]\<close>, and \<open>keys r\<close> is \<^verbatim>\<open>Object.keys(r)\<close>.\<close>

definition get :: "row \<Rightarrow> string \<Rightarrow> prim option" where
  "get r c = map_of r c"

definition keys :: "row \<Rightarrow> string list" where
  "keys r = map fst r"

text \<open>
  A thrown \<^verbatim>\<open>Error\<close>. \<open>error_text e\<close> is \<^verbatim>\<open>e?.message || String(e)\<close>: the message
  unless it is empty, and then the text of the error, which for an empty message is
  its name.
\<close>

record js_error =
  name :: string
  message :: string

definition to_String :: "js_error \<Rightarrow> string" where
  "to_String e =
     (if name e = [] then message e
      else if message e = [] then name e
      else name e @ '': '' @ message e)"

definition error_text :: "js_error \<Rightarrow> string" where
  "error_text e = (if message e \<noteq> [] then message e else to_String e)"

datatype body = Text string | Json json

record response =
  status :: nat
  body :: body

text \<open>\<^verbatim>\<open>res.json(v)\<close> answers 200 unless \<^verbatim>\<open>res.status(n)\<close> came first.\<close>

definition res_json :: "nat \<Rightarrow> json \<Rightarrow> response" where
  "res_json n v = \<lparr>status = n, body = Json v\<rparr>"

definition res_text :: "nat \<Rightarrow> string \<Rightarrow> response" where
  "res_text n s = \<lparr>status = n, body = Text s\<rparr>"

definition strings :: "string list \<Rightarrow> json" where
  "strings xs = Arr (map (\<lambda>s. Prim (Str s)) xs)"

subsection \<open>The lazy loader\<close>

text \<open>
  What the process finds outside itself: the path \<^verbatim>\<open>CSV_FILE\<close>, what
  \<^verbatim>\<open>readFile\<close> yields for a path (the decoded text, or the error it rejects with),
  and the parser of csv-parse, which is not part of the repository and is taken as
  it comes: any function from text to records or a thrown error.
\<close>

record world =
  CSV_FILE :: string
  readFile :: "string \<Rightarrow> js_error + string"
  parse :: "string \<Rightarrow> js_error + row list"

text \<open>
  The two module variables \<^verbatim>\<open>DATA\<close> and \<^verbatim>\<open>COLUMNS\<close>, \<open>None\<close> for \<^verbatim>\<open>null\<close>.
  The three counters are not in the source: they count the calls of
  \<^verbatim>\<open>readFile\<close>, the calls of \<^verbatim>\<open>parse\<close> and the assignments to \<^verbatim>\<open>DATA\<close>, so
  that "does not read again" can be stated.
\<close>

record state =
  DATA :: "row list option"
  COLUMNS :: "string list option"
  reads :: nat
  parses :: nat
  loads :: nat

definition initial :: state where
  "initial = \<lparr>DATA = None, COLUMNS = None, reads = 0, parses = 0, loads = 0\<rparr>"

text \<open>
  \<^verbatim>\<open>loadCSVOnce\<close> is an async function with one \<^verbatim>\<open>await\<close>. Up to the
  \<^verbatim>\<open>await\<close> it runs with its caller: the guard, and the call of \<^verbatim>\<open>readFile\<close>.
  An array is truthy even when empty, so \<^verbatim>\<open>if (DATA) return\<close> returns for every
  array. What follows the \<^verbatim>\<open>await\<close> runs when the read has settled, and other
  requests may have been served in between: it does not test the guard again.
\<close>

datatype started = Returned | Awaiting

definition loadCSVOnce_begin :: "state \<Rightarrow> started \<times> state" where
  "loadCSVOnce_begin st =
     (if DATA st \<noteq> None then (Returned, st)
      else (Awaiting, st\<lparr>reads := Suc (reads st)\<rparr>))"

text \<open>
  The part after the \<^verbatim>\<open>await\<close>, in the world that settles the read. The first
  component is the error thrown, if any.
\<close>

definition loadCSVOnce_resume :: "world \<Rightarrow> state \<Rightarrow> js_error option \<times> state" where
  "loadCSVOnce_resume w st1 =
     (case readFile w (CSV_FILE w) of
        Inl e \<Rightarrow> (Some e, st1)
      | Inr text \<Rightarrow>
          (let st2 = (st1\<lparr>parses := Suc (parses st1)\<rparr>) in
           (case parse w text of
              Inl e \<Rightarrow> (Some e, st2)
            | Inr records \<Rightarrow>
                (let columns = (case records of [] \<Rightarrow> [] | r # _ \<Rightarrow> keys r)
                 in (None, st2\<lparr>DATA := Some records, COLUMNS := Some columns,
                                loads := Suc (loads st2)\<rparr>)))))"

text \<open>A call of \<^verbatim>\<open>loadCSVOnce\<close> that nothing comes between: both parts in a row.\<close>

definition loadCSVOnce :: "world \<Rightarrow> state \<Rightarrow> js_error option \<times> state" where
  "loadCSVOnce w st =
     (case loadCSVOnce_begin st of
        (Returned, st') \<Rightarrow> (None, st')
      | (Awaiting, st1) \<Rightarrow> loadCSVOnce_resume w st1)"

subsection \<open>Column resolution\<close>

text \<open>
  \<^verbatim>\<open>new Map(cols.map((c) => [c.toLowerCase(), c]))\<close>: the entries are set one after
  the other, so of two columns with the same lower-case form the later one stays.
\<close>

definition lower :: "string list \<Rightarrow> string \<Rightarrow> string option" where
  "lower cols = fold (\<lambda>c m. m(toLowerCase c \<mapsto> c)) cols Map.empty"

text \<open>
  \<^verbatim>\<open>findCol\<close>. The candidates are a \<^verbatim>\<open>Set\<close>, iterated in insertion order: the list
  of its elements in that order. \<^verbatim>\<open>if (m)\<close> is false for the empty string too.
\<close>

fun findCol :: "string list \<Rightarrow> string list \<Rightarrow> string option" where
  "findCol cols [] = None"
| "findCol cols (cand # rest) =
     (if cand \<in> set cols then Some cand
      else case lower cols (toLowerCase cand) of
             Some m \<Rightarrow> if m \<noteq> [] then Some m else findCol cols rest
           | None \<Rightarrow> findCol cols rest)"

definition ALIAS_MAP_province :: "string list" where
  "ALIAS_MAP_province =
     [''province'', ''Province'', ''Province or Territory'', ''Province/Territory'',
      ''prov'', ''province_or_territory'']"

definition ALIAS_MAP_odhf_facility_type :: "string list" where
  "ALIAS_MAP_odhf_facility_type =
     [''odhf_facility_type'', ''ODHF Facility Type'', ''Facility Type'', ''facility_type'',
      ''odhf facility type'']"

text \<open>
  The resolution as the specification words it: the first alias that is an actual
  column; if there is none, the first alias whose lower-case form is that of an
  actual column; otherwise none.
\<close>

definition resolveColumn_spec :: "string list \<Rightarrow> string list \<Rightarrow> string option" where
  "resolveColumn_spec cols aliases =
     (case find (\<lambda>a. a \<in> set cols) aliases of
        Some a \<Rightarrow> Some a
      | None \<Rightarrow> find (\<lambda>a. toLowerCase a \<in> set (map toLowerCase cols)) aliases)"

subsection \<open>Output normalisation\<close>

text \<open>\<^verbatim>\<open>nullish\<close>, with strict equality: \<^verbatim>\<open>null\<close> itself falls through to the last line.\<close>

definition nullish :: "prim option \<Rightarrow> prim" where
  "nullish v =
     (if v = None \<or> v = Some (Str []) then Null
      else if v = Some (Str ''NaN'') \<or> v = Some (Str ''nan'') then Null
      else (case v of Some x \<Rightarrow> x | None \<Rightarrow> Null))"

subsection \<open>The handlers\<close>

text \<open>
  The query of a request: each of the two parameters is a string or is not there, as
  the tool manifest declares them. (A parameter given twice reaches the handler as an
  array; that is outside this model.)
\<close>

record query =
  province :: "string option"
  facility_type :: "string option"

text \<open>\<^verbatim>\<open>(req.query.province || "").toString().trim()\<close>.\<close>

definition query_text :: "string option \<Rightarrow> string" where
  "query_text v = trim (case v of None \<Rightarrow> [] | Some s \<Rightarrow> s)"

text \<open>
  \<^verbatim>\<open>(r[col] || "")\<close>: \<^verbatim>\<open>undefined\<close>, \<^verbatim>\<open>null\<close> and the empty string are falsy.
  \<^verbatim>\<open>.toString()\<close> throws a TypeError on \<^verbatim>\<open>null\<close>.
\<close>

definition or_empty :: "prim option \<Rightarrow> prim" where
  "or_empty v =
     (case v of None \<Rightarrow> Str [] | Some Null \<Rightarrow> Str []
      | Some (Str s) \<Rightarrow> if s = [] then Str [] else Str s)"

definition toString :: "prim \<Rightarrow> js_error + string" where
  "toString v =
     (case v of
        Null \<Rightarrow>
          Inl \<lparr>name = ''TypeError'',
               message = ''Cannot read properties of null (reading '' @ [CHR 0x27]
                         @ ''toString'' @ [CHR 0x27] @ '')''\<rparr>
      | Str s \<Rightarrow> Inr s)"

text \<open>
  The callback of \<^verbatim>\<open>rows.filter\<close>:
  \<^verbatim>\<open>(r[col] || "").toString().toLowerCase().includes(p)\<close>.
\<close>

definition cell_matches :: "string \<Rightarrow> string \<Rightarrow> row \<Rightarrow> js_error + bool" where
  "cell_matches col p r =
     (case toString (or_empty (get r col)) of
        Inl e \<Rightarrow> Inl e
      | Inr s \<Rightarrow> Inr (str_includes (toLowerCase s) p))"

text \<open>\<^verbatim>\<open>Array.prototype.filter\<close> with a callback that may throw.\<close>

fun filter_rows :: "(row \<Rightarrow> js_error + bool) \<Rightarrow> row list \<Rightarrow> js_error + row list" where
  "filter_rows f [] = Inr []"
| "filter_rows f (r # rs) =
     (case f r of
        Inl e \<Rightarrow> Inl e
      | Inr b \<Rightarrow>
          (case filter_rows f rs of
             Inl e \<Rightarrow> Inl e
           | Inr rs' \<Rightarrow> Inr (if b then r # rs' else rs')))"

text \<open>One \<^verbatim>\<open>if (v) { rows = rows.filter(...) }\<close> step.\<close>

definition filter_step :: "string \<Rightarrow> string \<Rightarrow> row list \<Rightarrow> js_error + row list" where
  "filter_step col v rs =
     (if v \<noteq> [] then filter_rows (cell_matches col (toLowerCase v)) rs else Inr rs)"

text \<open>
  \<^verbatim>\<open>obj[c] = v\<close> on an object whose keys are kept in insertion order: a key that is
  there keeps its place. (A key that is an array index would be listed first by
  JavaScript; no alias and none of the five fixed names is one.)
\<close>

fun assign :: "(string \<times> json) list \<Rightarrow> string \<Rightarrow> json \<Rightarrow> (string \<times> json) list" where
  "assign [] c v = [(c, v)]"
| "assign ((k, u) # obj) c v = (if k = c then (k, v) # obj else (k, u) # assign obj c v)"

definition preferred :: "string list \<Rightarrow> string \<Rightarrow> string \<Rightarrow> string list" where
  "preferred columns colProvince colType =
     filter (\<lambda>c. c \<in> set columns)
       [''Facility Name'', ''City'', colProvince, colType,
        ''Postal Code'', ''Latitude'', ''Longitude'']"

text \<open>The callback of \<^verbatim>\<open>rows.slice(0, 25).map\<close>.\<close>

definition cleaned :: "string list \<Rightarrow> string list \<Rightarrow> row \<Rightarrow> json" where
  "cleaned columns pref r =
     Obj (fold (\<lambda>c obj. assign obj c (Prim (nullish (get r c))))
            (if pref \<noteq> [] then pref else columns) [])"

definition error_obj :: "string \<Rightarrow> json" where
  "error_obj s = Obj [(''error'', Prim (Str s))]"

definition not_found :: "world \<Rightarrow> response" where
  "not_found w = res_json 400 (error_obj (''CSV not found or empty at '' @ CSV_FILE w))"

definition columns_not_found :: "string list \<Rightarrow> response" where
  "columns_not_found columns =
     res_json 400
       (Obj [(''error'', Prim (Str ''Expected columns not found.'')),
             (''have'', strings columns),
             (''need_any_of'',
                Obj [(''province'', strings ALIAS_MAP_province),
                     (''odhf_facility_type'', strings ALIAS_MAP_odhf_facility_type)])])"

definition no_results :: response where
  "no_results =
     res_json 200
       (Obj [(''message'',
              Prim (Str (''No results. Try another province (e.g., '' @ [CHR 0x27] @ ''QC''
                         @ [CHR 0x27] @ ''/'' @ [CHR 0x27] @ ''Quebec'' @ [CHR 0x27]
                         @ '') or facility_type.'')))])"

text \<open>
  Each handler awaits the loader and then runs to its answer without another
  \<^verbatim>\<open>await\<close>. The part after the loader is a function of what the loader threw
  and of the state it left; the handler itself is that part behind a call of the
  loader that nothing comes between.
\<close>

text \<open>\<^verbatim>\<open>GET /\<close>.\<close>

definition root_after :: "js_error option \<Rightarrow> state \<Rightarrow> response" where
  "root_after thrown st' =
     (case thrown of
        None \<Rightarrow>
          res_text 200
            (''ODHF MCP Server (Node) is running! csv_found=true rows=''
             @ decimal (case DATA st' of None \<Rightarrow> 0 | Some d \<Rightarrow> length d))
      | Some e \<Rightarrow> res_text 500 (''Startup error: '' @ error_text e))"

definition root :: "world \<Rightarrow> state \<Rightarrow> response \<times> state" where
  "root w st = (case loadCSVOnce w st of (thrown, st') \<Rightarrow> (root_after thrown st', st'))"

text \<open>\<^verbatim>\<open>GET /list_fields\<close>.\<close>

definition list_fields_after :: "world \<Rightarrow> js_error option \<Rightarrow> state \<Rightarrow> response" where
  "list_fields_after w thrown st' =
     (case thrown of
        None \<Rightarrow>
          (case COLUMNS st' of
             None \<Rightarrow> not_found w
           | Some columns \<Rightarrow> res_json 200 (Obj [(''columns'', strings columns)]))
      | Some e \<Rightarrow> res_json 500 (error_obj (error_text e)))"

definition list_fields :: "world \<Rightarrow> state \<Rightarrow> response \<times> state" where
  "list_fields w st =
     (case loadCSVOnce w st of (thrown, st') \<Rightarrow> (list_fields_after w thrown st', st'))"

text \<open>
  \<^verbatim>\<open>GET /search_facilities\<close>, in four parts: the two filter steps (the value of
  \<^verbatim>\<open>rows\<close> after them), the answer built from the filtered rows, the resolution of
  the two columns, and the handler around them (the part after the loader, and the
  handler).
\<close>

definition filtered :: "string \<Rightarrow> string \<Rightarrow> query \<Rightarrow> row list \<Rightarrow> js_error + row list" where
  "filtered colProvince colType q data =
     (case filter_step colProvince (query_text (province q)) data of
        Inl e \<Rightarrow> Inl e
      | Inr rows1 \<Rightarrow> filter_step colType (query_text (facility_type q)) rows1)"

definition search_rows ::
  "string list \<Rightarrow> row list \<Rightarrow> string \<Rightarrow> string \<Rightarrow> query \<Rightarrow> response" where
  "search_rows columns data colProvince colType q =
     (case filtered colProvince colType q data of
        Inl e \<Rightarrow> res_json 500 (error_obj (error_text e))
      | Inr rows2 \<Rightarrow>
          if rows2 = [] then no_results
          else res_json 200
                 (Arr (map (cleaned columns (preferred columns colProvince colType))
                         (take 25 rows2))))"

definition search_loaded :: "string list \<Rightarrow> row list \<Rightarrow> query \<Rightarrow> response" where
  "search_loaded columns data q =
     (case (findCol columns ALIAS_MAP_province,
            findCol columns ALIAS_MAP_odhf_facility_type) of
        (Some colProvince, Some colType) \<Rightarrow>
          if colProvince = [] \<or> colType = [] then columns_not_found columns
          else search_rows columns data colProvince colType q
      | _ \<Rightarrow> columns_not_found columns)"

definition search_facilities_after ::
  "world \<Rightarrow> query \<Rightarrow> js_error option \<Rightarrow> state \<Rightarrow> response" where
  "search_facilities_after w q thrown st' =
     (case thrown of
        None \<Rightarrow>
          (case (DATA st', COLUMNS st') of
             (Some data, Some columns) \<Rightarrow> search_loaded columns data q
           | _ \<Rightarrow> not_found w)
      | Some e \<Rightarrow> res_json 500 (error_obj (error_text e)))"

definition search_facilities :: "world \<Rightarrow> query \<Rightarrow> state \<Rightarrow> response \<times> state" where
  "search_facilities w q st =
     (case loadCSVOnce w st of
        (thrown, st') \<Rightarrow> (search_facilities_after w q thrown st', st'))"

subsection \<open>Requests, one after the other and overlapping\<close>

datatype request = Root | ListFields | SearchFacilities query

text \<open>A request served with nothing in between.\<close>

fun handle :: "world \<Rightarrow> request \<Rightarrow> state \<Rightarrow> response \<times> state" where
  "handle w Root st = root w st"
| "handle w ListFields st = list_fields w st"
| "handle w (SearchFacilities q) st = search_facilities w q st"

text \<open>
  Requests that do not overlap: each is served to its answer before the next one
  starts, each in the world it finds (the file may come and go between two requests).
\<close>

fun run :: "(world \<times> request) list \<Rightarrow> state \<Rightarrow> response list \<times> state" where
  "run [] st = ([], st)"
| "run ((w, rq) # rest) st =
     (case handle w rq st of
        (res, st') \<Rightarrow> (case run rest st' of (ress, st'') \<Rightarrow> (res # ress, st'')))"

text \<open>The part of a handler after the loader.\<close>

fun after :: "world \<Rightarrow> request \<Rightarrow> js_error option \<Rightarrow> state \<Rightarrow> response" where
  "after w Root thrown st = root_after thrown st"
| "after w ListFields thrown st = list_fields_after w thrown st"
| "after w (SearchFacilities q) thrown st = search_facilities_after w q thrown st"

text \<open>
  Requests that may overlap. The event loop runs one piece of code at a time, and a
  handler gives way only at the \<^verbatim>\<open>await\<close> of the read. So a server is the module
  variables together with the requests whose loader awaits its read, and there are two
  events. A request arrives: its loader runs up to the \<^verbatim>\<open>await\<close>; if the guard
  returned, the handler answers at once, otherwise the request waits. Or the read of
  the waiting request number \<open>i\<close> settles, in the world of that moment: its loader
  resumes and the handler answers. (With no such waiting request nothing happens.)
\<close>

type_synonym server = "state \<times> request list"

datatype event = Arrive request | Settle nat

fun step :: "world \<Rightarrow> event \<Rightarrow> server \<Rightarrow> response option \<times> server" where
  "step w (Arrive rq) (st, waiting) =
     (case loadCSVOnce_begin st of
        (Returned, st') \<Rightarrow> (Some (after w rq None st'), (st', waiting))
      | (Awaiting, st1) \<Rightarrow> (None, (st1, waiting @ [rq])))"
| "step w (Settle i) (st, waiting) =
     (if i < length waiting then
        (case loadCSVOnce_resume w st of
           (thrown, st') \<Rightarrow>
             (Some (after w (waiting ! i) thrown st'),
              (st', take i waiting @ drop (Suc i) waiting)))
      else (None, (st, waiting)))"

fun exec :: "(world \<times> event) list \<Rightarrow> server \<Rightarrow> response option list \<times> server" where
  "exec [] c = ([], c)"
| "exec ((w, ev) # rest) c =
     (case step w ev c of
        (r, c') \<Rightarrow> (case exec rest c' of (rs, c'') \<Rightarrow> (r # rs, c'')))"

text \<open>The events of requests that do not overlap: each arrives and, if it waits, settles.\<close>

definition serial :: "(world \<times> request) list \<Rightarrow> (world \<times> event) list" where
  "serial reqs = concat (map (\<lambda>(w, rq). [(w, Arrive rq), (w, Settle 0)]) reqs)"

subsection \<open>Notions of the specification\<close>

text \<open>
  The text a cell is compared by when the specification speaks of "the column's
  value": the string itself, and the empty string for a cell that is \<^verbatim>\<open>null\<close> or
  not there.
\<close>

definition cell_text :: "prim option \<Rightarrow> string" where
  "cell_text v = (case v of Some (Str s) \<Rightarrow> s | _ \<Rightarrow> [])"

text \<open>
  A filter value \<open>v\<close> on column \<open>col\<close> keeps a row when it is empty or when the
  column's value contains it, both taken in lower case.
\<close>

definition keeps :: "string \<Rightarrow> string \<Rightarrow> row \<Rightarrow> bool" where
  "keeps col v r = (v = [] \<or> str_includes (toLowerCase (cell_text (get r col))) (toLowerCase v))"

text \<open>The rows the specification asks for: those both trimmed filter values keep.\<close>

definition matching_spec :: "string \<Rightarrow> string \<Rightarrow> query \<Rightarrow> row list \<Rightarrow> row list" where
  "matching_spec colProvince colType q data =
     filter (\<lambda>r. keeps colProvince (trim (case province q of None \<Rightarrow> [] | Some s \<Rightarrow> s)) r
               \<and> keeps colType (trim (case facility_type q of None \<Rightarrow> [] | Some s \<Rightarrow> s)) r)
       data"

text \<open>The object with the fields \<open>cs\<close> of a row, in that order, each normalised.\<close>

definition projection :: "string list \<Rightarrow> row \<Rightarrow> json" where
  "projection cs r = Obj (map (\<lambda>c. (c, Prim (nullish (get r c)))) cs)"

text \<open>
  What holds of every state reached by requests that do not overlap: \<^verbatim>\<open>DATA\<close> has
  been assigned once or not at all, and \<^verbatim>\<open>COLUMNS\<close> is set when \<^verbatim>\<open>DATA\<close> is.
\<close>

definition counted :: "state \<Rightarrow> bool" where
  "counted st =
     (loads st = (if DATA st = None then 0 else 1) \<and> (DATA st = None) = (COLUMNS st = None))"

subsection \<open>Example worlds\<close>

definition facility :: "string \<Rightarrow> string \<Rightarrow> string \<Rightarrow> string \<Rightarrow> row" where
  "facility n c p t =
     [(''Facility Name'', Str n), (''City'', Str c), (''Province or Territory'', Str p),
      (''ODHF Facility Type'', Str t)]"

definition two_rows :: "row list" where
  "two_rows =
     [facility ''Hopital A'' ''NaN'' ''Quebec'' ''Hospital'',
      facility ''Clinique B'' ''Laval'' ''Quebec'' ''Clinic'']"

definition csv_path :: string where
  "csv_path = ''/app/odhf_v1.1.csv''"

text \<open>A world with the file in place, one with a file of no records, one without the file.\<close>

definition world_two :: world where
  "world_two = \<lparr>CSV_FILE = csv_path, readFile = (\<lambda>p. Inr ''text''), parse = (\<lambda>t. Inr two_rows)\<rparr>"

definition world_empty :: world where
  "world_empty = \<lparr>CSV_FILE = csv_path, readFile = (\<lambda>p. Inr []), parse = (\<lambda>t. Inr [])\<rparr>"

definition world_missing :: world where
  "world_missing =
     \<lparr>CSV_FILE = csv_path,
      readFile = (\<lambda>p. Inl \<lparr>name = ''Error'',
                             message = ''ENOENT: no such file or directory, open '' @ p\<rparr>),
      parse = (\<lambda>t. Inr [])\<rparr>"

definition columns_two :: "string list" where
  "columns_two = [''Facility Name'', ''City'', ''Province or Territory'', ''ODHF Facility Type'']"

text \<open>The state after the first request in \<open>world_two\<close>.\<close>

definition loaded_two :: state where
  "loaded_two =
     \<lparr>DATA = Some two_rows, COLUMNS = Some columns_two, reads = 1, parses = 1, loads = 1\<rparr>"

text \<open>Forty rows that all match the province filter \<open>QC\<close>.\<close>

definition forty_rows :: "row list" where
  "forty_rows = replicate 40 (facility ''F'' ''Laval'' ''Qc-Montreal'' ''Clinic'')"

definition loaded_forty :: state where
  "loaded_forty =
     \<lparr>DATA = Some forty_rows, COLUMNS = Some columns_two, reads = 1, parses = 1, loads = 1\<rparr>"

definition qc :: query where
  "qc = \<lparr>province = Some ''QC'', facility_type = None\<rparr>"

definition yukon :: query where
  "yukon = \<lparr>province = Some ''Yukon'', facility_type = Some '' ''\<rparr>"

definition quebec_hosp :: query where
  "quebec_hosp = \<lparr>province = Some '' quebec '', facility_type = Some ''hosp''\<rparr>"

definition no_province :: row where
  "no_province = [(''Facility Name'', Str ''X''), (''Province'', Null)]"

text \<open>
  Two requests that arrive before the first read settles, and a file that has lost a
  row between the two reads.
\<close>

definition one_row :: "row list" where
  "one_row = [facility ''Hopital A'' ''NaN'' ''Quebec'' ''Hospital'']"

definition world_one :: world where
  "world_one = \<lparr>CSV_FILE = csv_path, readFile = (\<lambda>p. Inr ''text''), parse = (\<lambda>t. Inr one_row)\<rparr>"

definition overlap :: "(world \<times> event) list" where
  "overlap =
     [(world_two, Arrive ListFields), (world_two, Arrive Root), (world_two, Settle 0),
      (world_two, Arrive Root), (world_one, Settle 0), (world_one, Arrive Root)]"

definition no_filter :: query where
  "no_filter = \<lparr>province = None, facility_type = None\<rparr>"

section \<open>Auxiliary lemmas\<close>

subsection \<open>The loader in one piece\<close>

lemma loadCSVOnce_eq:
  "loadCSVOnce w st =
     (if DATA st \<noteq> None then (None, st)
      else
        (let st1 = (st\<lparr>reads := Suc (reads st)\<rparr>) in
         (case readFile w (CSV_FILE w) of
            Inl e \<Rightarrow> (Some e, st1)
          | Inr text \<Rightarrow>
              (let st2 = (st1\<lparr>parses := Suc (parses st1)\<rparr>) in
               (case parse w text of
                  Inl e \<Rightarrow> (Some e, st2)
                | Inr records \<Rightarrow>
                    (let columns = (case records of [] \<Rightarrow> [] | r # _ \<Rightarrow> keys r)
                     in (None, st2\<lparr>DATA := Some records, COLUMNS := Some columns,
                                    loads := Suc (loads st2)\<rparr>)))))))"
  by (simp add: loadCSVOnce_def loadCSVOnce_begin_def loadCSVOnce_resume_def Let_def)

subsection \<open>Strings, cells and filtering\<close>

lemma toLowerCase_Nil: "toLowerCase [] = []"
  by (simp add: toLowerCase_def)

lemma toLowerCase_eq_Nil: "(toLowerCase s = []) = (s = [])"
  by (simp add: toLowerCase_def)

lemma starts_with_iff: "starts_with s p = (\<exists>b. s = p @ b)"
  by (induction s p rule: starts_with.induct) auto

lemma str_includes_iff: "str_includes s p = (\<exists>a b. s = a @ p @ b)"
proof (induction s)
  case Nil
  then show ?case by auto
next
  case (Cons d s)
  show ?case
  proof
    assume "str_includes (d # s) p"
    then consider "starts_with (d # s) p" | "str_includes s p" by auto
    then show "\<exists>a b. d # s = a @ p @ b"
    proof cases
      case 1
      then obtain b where "d # s = p @ b" by (auto simp: starts_with_iff)
      then have "d # s = [] @ p @ b" by simp
      then show ?thesis by blast
    next
      case 2
      then obtain a b where "s = a @ p @ b" using Cons.IH by auto
      then have "d # s = (d # a) @ p @ b" by simp
      then show ?thesis by blast
    qed
  next
    assume "\<exists>a b. d # s = a @ p @ b"
    then obtain a b where ab: "d # s = a @ p @ b" by blast
    show "str_includes (d # s) p"
    proof (cases a)
      case Nil
      with ab have "starts_with (d # s) p" by (auto simp: starts_with_iff)
      then show ?thesis by simp
    next
      case (Cons x a')
      with ab have "s = a' @ p @ b" by simp
      then have "str_includes s p" using Cons.IH by blast
      then show ?thesis by simp
    qed
  qed
qed

lemma str_includes_Nil: "str_includes [] p = (p = [])"
  by simp

lemma toString_or_empty: "toString (or_empty v) = Inr (cell_text v)"
  by (auto simp: toString_def or_empty_def cell_text_def split: option.splits prim.splits)

lemma cell_matches_eq:
  "cell_matches col p r = Inr (str_includes (toLowerCase (cell_text (get r col))) p)"
  by (simp add: cell_matches_def toString_or_empty)

lemma filter_rows_total:
  "(\<And>r. f r = Inr (g r)) \<Longrightarrow> filter_rows f rs = Inr (filter g rs)"
  by (induction rs) auto

lemma filter_step_eq: "filter_step col v rs = Inr (filter (keeps col v) rs)"
proof (cases "v = []")
  case True
  then show ?thesis by (simp add: filter_step_def keeps_def)
next
  case False
  have "filter_rows (cell_matches col (toLowerCase v)) rs
        = Inr (filter (\<lambda>r. str_includes (toLowerCase (cell_text (get r col))) (toLowerCase v)) rs)"
    by (rule filter_rows_total) (rule cell_matches_eq)
  moreover have "keeps col v = (\<lambda>r. str_includes (toLowerCase (cell_text (get r col))) (toLowerCase v))"
    using False by (simp add: keeps_def fun_eq_iff)
  ultimately show ?thesis using False by (simp add: filter_step_def)
qed

lemma filtered_eq: "filtered cp ct q data = Inr (matching_spec cp ct q data)"
  by (simp add: filtered_def filter_step_eq matching_spec_def query_text_def)


lemma lower_find: "lower cols k = find (\<lambda>c. toLowerCase c = k) (rev cols)"
  unfolding lower_def
  by (induction cols rule: rev_induct) auto

lemma find_Some_mem: "find P xs = Some x \<Longrightarrow> x \<in> set xs \<and> P x"
  by (induction xs) (auto split: if_splits)

lemma lower_Some: "lower cols k = Some m \<Longrightarrow> m \<in> set cols \<and> toLowerCase m = k"
  using find_Some_mem [of "\<lambda>c. toLowerCase c = k" "rev cols" m] by (simp add: lower_find)

lemma lower_None: "(lower cols k = None) = (k \<notin> set (map toLowerCase cols))"
  by (auto simp: lower_find find_None_iff)

lemma lower_nonempty:
  assumes "cand \<notin> set cols" "lower cols (toLowerCase cand) = Some m"
  shows "m \<noteq> []"
proof
  assume "m = []"
  with assms(2) have "[] \<in> set cols" "toLowerCase cand = []"
    using lower_Some [of cols "toLowerCase cand" m] by (auto simp: toLowerCase_Nil)
  then have "cand \<in> set cols" by (simp add: toLowerCase_eq_Nil)
  with assms(1) show False by simp
qed

lemma findCol_mem: "findCol cols cands = Some c \<Longrightarrow> c \<in> set cols"
  by (induction cands) (auto split: if_splits option.splits dest: lower_Some)

lemma findCol_lower:
  "findCol cols cands = Some c \<Longrightarrow> toLowerCase c \<in> set (map toLowerCase cands)"
  by (induction cands) (auto split: if_splits option.splits dest: lower_Some)

lemma assign_fresh: "c \<notin> fst ` set obj \<Longrightarrow> assign obj c v = obj @ [(c, v)]"
  by (induction obj) auto

lemma fold_assign:
  "distinct cs \<Longrightarrow> set cs \<inter> fst ` set acc = {} \<Longrightarrow>
   fold (\<lambda>c obj. assign obj c (f c)) cs acc = acc @ map (\<lambda>c. (c, f c)) cs"
proof (induction cs arbitrary: acc)
  case Nil
  then show ?case by simp
next
  case (Cons c cs)
  from Cons.prems have fresh: "c \<notin> fst ` set acc" by auto
  have "set cs \<inter> fst ` set (acc @ [(c, f c)]) = {}" using Cons.prems by auto
  with Cons have "fold (\<lambda>c obj. assign obj c (f c)) cs (acc @ [(c, f c)])
                  = (acc @ [(c, f c)]) @ map (\<lambda>c. (c, f c)) cs"
    by simp
  with fresh show ?case by (simp add: assign_fresh)
qed

lemma cleaned_projection:
  "distinct (if pref \<noteq> [] then pref else columns) \<Longrightarrow>
   cleaned columns pref r = projection (if pref \<noteq> [] then pref else columns) r"
  using fold_assign [of "if pref \<noteq> [] then pref else columns" "[]" "\<lambda>c. Prim (nullish (get r c))"]
  by (simp add: cleaned_def projection_def)

lemma lower_aliases_province:
  "set (map toLowerCase ALIAS_MAP_province) =
     {''province'', ''province or territory'', ''province/territory'', ''prov'',
      ''province_or_territory''}"
  by (auto simp: ALIAS_MAP_province_def toLowerCase_def lower_char_def)

lemma lower_aliases_type:
  "set (map toLowerCase ALIAS_MAP_odhf_facility_type) =
     {''odhf_facility_type'', ''odhf facility type'', ''facility type'', ''facility_type''}"
  by (auto simp: ALIAS_MAP_odhf_facility_type_def toLowerCase_def lower_char_def)

lemma lower_fixed:
  "toLowerCase ''Facility Name'' = ''facility name''"
  "toLowerCase ''City'' = ''city''"
  "toLowerCase ''Postal Code'' = ''postal code''"
  "toLowerCase ''Latitude'' = ''latitude''"
  "toLowerCase ''Longitude'' = ''longitude''"
  by (simp_all add: toLowerCase_def lower_char_def)

lemma priority_distinct:
  assumes "findCol columns ALIAS_MAP_province = Some cp"
    and "findCol columns ALIAS_MAP_odhf_facility_type = Some ct"
  shows "distinct [''Facility Name'', ''City'', cp, ct, ''Postal Code'', ''Latitude'', ''Longitude'']"
proof -
  have p: "toLowerCase cp \<in> set (map toLowerCase ALIAS_MAP_province)"
    using assms(1) by (rule findCol_lower)
  have t: "toLowerCase ct \<in> set (map toLowerCase ALIAS_MAP_odhf_facility_type)"
    using assms(2) by (rule findCol_lower)
  have "cp \<noteq> ct" using p t unfolding lower_aliases_province lower_aliases_type by auto
  moreover have "cp \<notin> {''Facility Name'', ''City'', ''Postal Code'', ''Latitude'', ''Longitude''}"
    using p lower_fixed unfolding lower_aliases_province by auto
  moreover have "ct \<notin> {''Facility Name'', ''City'', ''Postal Code'', ''Latitude'', ''Longitude''}"
    using t lower_fixed unfolding lower_aliases_type by auto
  ultimately show ?thesis by auto
qed


lemma resolved_nonempty:
  assumes "findCol columns ALIAS_MAP_province = Some cp"
    and "findCol columns ALIAS_MAP_odhf_facility_type = Some ct"
  shows "cp \<noteq> [] \<and> ct \<noteq> []"
proof -
  have "toLowerCase cp \<in> set (map toLowerCase ALIAS_MAP_province)"
    using assms(1) by (rule findCol_lower)
  moreover have "toLowerCase ct \<in> set (map toLowerCase ALIAS_MAP_odhf_facility_type)"
    using assms(2) by (rule findCol_lower)
  ultimately show ?thesis
    unfolding lower_aliases_province lower_aliases_type by (auto simp: toLowerCase_Nil)
qed

lemma preferred_distinct:
  assumes "findCol columns ALIAS_MAP_province = Some cp"
    and "findCol columns ALIAS_MAP_odhf_facility_type = Some ct"
  shows "distinct (preferred columns cp ct)"
  unfolding preferred_def using priority_distinct [OF assms] by (rule distinct_filter)

lemma preferred_resolved:
  assumes "findCol columns ALIAS_MAP_province = Some cp"
    and "findCol columns ALIAS_MAP_odhf_facility_type = Some ct"
  shows "cp \<in> set (preferred columns cp ct) \<and> ct \<in> set (preferred columns cp ct)"
  using findCol_mem [OF assms(1)] findCol_mem [OF assms(2)] by (simp add: preferred_def)

lemma loadCSVOnce_loaded: "DATA st = Some data \<Longrightarrow> loadCSVOnce w st = (None, st)"
  by (simp add: loadCSVOnce_eq)

lemma search_facilities_loaded:
  "DATA st = Some data \<Longrightarrow> COLUMNS st = Some columns \<Longrightarrow>
   search_facilities w q st = (search_loaded columns data q, st)"
  by (simp add: search_facilities_def search_facilities_after_def loadCSVOnce_loaded)

lemma search_loaded_resolved:
  assumes "findCol columns ALIAS_MAP_province = Some cp"
    and "findCol columns ALIAS_MAP_odhf_facility_type = Some ct"
  shows "search_loaded columns data q = search_rows columns data cp ct q"
  using assms resolved_nonempty [OF assms] by (simp add: search_loaded_def)

lemma search_rows_eq:
  "search_rows columns data cp ct q =
     (if matching_spec cp ct q data = [] then no_results
      else res_json 200
             (Arr (map (cleaned columns (preferred columns cp ct))
                     (take 25 (matching_spec cp ct q data)))))"
  by (simp add: search_rows_def filtered_eq)

lemma search_answer:
  assumes "DATA st = Some data" and "COLUMNS st = Some columns"
    and "findCol columns ALIAS_MAP_province = Some cp"
    and "findCol columns ALIAS_MAP_odhf_facility_type = Some ct"
  shows "search_facilities w q st =
     (if matching_spec cp ct q data = [] then no_results
      else res_json 200
             (Arr (map (projection (preferred columns cp ct))
                     (take 25 (matching_spec cp ct q data)))), st)"
proof -
  have ne: "preferred columns cp ct \<noteq> []"
    using preferred_resolved [OF assms(3,4)] by auto
  have "cleaned columns (preferred columns cp ct) = projection (preferred columns cp ct)"
    using cleaned_projection [of "preferred columns cp ct" columns]
      preferred_distinct [OF assms(3,4)] ne by (simp add: fun_eq_iff)
  then show ?thesis
    by (simp add: search_facilities_loaded [OF assms(1,2)]
        search_loaded_resolved [OF assms(3,4)] search_rows_eq)
qed

lemma handle_loaded: "DATA st = Some data \<Longrightarrow> snd (handle w rq st) = st"
  by (cases rq)
    (auto simp: root_def root_after_def list_fields_def list_fields_after_def search_facilities_def search_facilities_after_def loadCSVOnce_loaded
      split: option.splits)

lemma run_Cons:
  "run ((w, rq) # rest) st =
     (fst (handle w rq st) # fst (run rest (snd (handle w rq st))),
      snd (run rest (snd (handle w rq st))))"
  by (simp split: prod.splits)

lemma run_loaded:
  "DATA st = Some data \<Longrightarrow> run reqs st = (map (\<lambda>(w, rq). fst (handle w rq st)) reqs, st)"
proof (induction reqs)
  case Nil
  then show ?case by simp
next
  case (Cons a reqs)
  obtain w rq where a: "a = (w, rq)" by (cases a)
  have "snd (handle w rq st) = st"
    using Cons.prems by (rule handle_loaded)
  with Cons a show ?case by (simp only: run_Cons) simp
qed

lemma loadCSVOnce_counted: "counted st \<Longrightarrow> counted (snd (loadCSVOnce w st))"
  by (auto simp: loadCSVOnce_eq counted_def Let_def split: sum.splits)

lemma handle_state: "snd (handle w rq st) = snd (loadCSVOnce w st)"
  by (cases rq)
    (auto simp: root_def root_after_def list_fields_def list_fields_after_def search_facilities_def search_facilities_after_def
      split: option.splits prod.splits)

lemma run_counted: "counted st \<Longrightarrow> counted (snd (run reqs st))"
proof (induction reqs arbitrary: st)
  case Nil
  then show ?case by simp
next
  case (Cons a reqs)
  obtain w rq where a: "a = (w, rq)" by (cases a)
  have "counted (snd (handle w rq st))"
    using Cons.prems by (simp add: handle_state loadCSVOnce_counted)
  then have "counted (snd (run reqs (snd (handle w rq st))))" by (rule Cons.IH)
  then show ?case using a by (simp only: run_Cons) simp
qed

subsection \<open>Reachable states and trimming\<close>

lemma initial_counted: "counted initial"
  by (simp add: counted_def initial_def)

lemma list_fields_no_400: "counted st \<Longrightarrow> status (fst (list_fields w st)) \<noteq> 400"
  by (auto simp: list_fields_def list_fields_after_def loadCSVOnce_eq counted_def Let_def res_json_def
      split: sum.splits option.splits if_splits)

lemma search_facilities_found:
  "counted st \<Longrightarrow> fst (search_facilities w q st) \<noteq> not_found w"
  by (auto simp: search_facilities_def search_facilities_after_def loadCSVOnce_eq counted_def Let_def res_json_def
      not_found_def error_obj_def search_loaded_def columns_not_found_def search_rows_def
      no_results_def split: sum.splits option.splits if_splits)

lemma rev_drop_take: "rev (dropWhile P ys) @ rev (takeWhile P ys) = rev ys"
proof -
  have "rev (takeWhile P ys @ dropWhile P ys) = rev ys" by simp
  then show ?thesis by (simp only: rev_append)
qed

lemma trim_suffix:
  "dropWhile is_space s = trim s @ rev (takeWhile is_space (rev (dropWhile is_space s)))"
  using rev_drop_take [of is_space "rev (dropWhile is_space s)"]
  by (simp only: trim_def rev_rev_ident)

lemma trim_parts:
  "\<exists>a b. s = a @ trim s @ b \<and> (\<forall>c\<in>set a. is_space c) \<and> (\<forall>c\<in>set b. is_space c)"
proof -
  let ?a = "takeWhile is_space s"
  let ?b = "rev (takeWhile is_space (rev (dropWhile is_space s)))"
  have "s = ?a @ dropWhile is_space s" by simp
  then have "s = ?a @ trim s @ ?b" using trim_suffix [of s] by simp
  moreover have "\<forall>c\<in>set ?a. is_space c" by (auto dest: set_takeWhileD)
  moreover have "\<forall>c\<in>set ?b. is_space c" by (auto dest: set_takeWhileD)
  ultimately show ?thesis by blast
qed

lemma trim_ends:
  assumes "trim s \<noteq> []"
  shows "\<not> is_space (hd (trim s)) \<and> \<not> is_space (last (trim s))"
proof -
  let ?t = "dropWhile is_space s"
  let ?u = "dropWhile is_space (rev ?t)"
  from assms have u: "?u \<noteq> []" by (simp add: trim_def)
  have t: "?t \<noteq> []"
  proof
    assume "?t = []"
    then have "?u = []" by (simp only: rev.simps dropWhile.simps)
    with u show False by blast
  qed
  have l: "\<not> is_space (hd ?u)" using u by (rule hd_dropWhile)
  have h: "\<not> is_space (hd ?t)" using t by (rule hd_dropWhile)
  have "last (trim s) = hd ?u" using u by (simp add: trim_def last_rev)
  moreover have "hd (trim s) = hd ?t"
  proof -
    have "hd ?t = hd (trim s @ rev (takeWhile is_space (rev ?t)))"
      using trim_suffix [of s] by simp
    with assms show ?thesis by simp
  qed
  ultimately show ?thesis using l h by simp
qed

lemma keeps_iff:
  "keeps col v r =
     (v = [] \<or> (\<exists>a b. toLowerCase (cell_text (get r col)) = a @ toLowerCase v @ b))"
  by (simp add: keeps_def str_includes_iff)

lemma query_text_None: "query_text None = []"
  by (simp add: query_text_def trim_def)

lemma matching_spec_query_text:
  "matching_spec cp ct q data =
     filter (\<lambda>r. keeps cp (query_text (province q)) r
               \<and> keeps ct (query_text (facility_type q)) r) data"
  by (simp only: matching_spec_def query_text_def)

lemma loadCSVOnce_done:
  "DATA (snd (loadCSVOnce w st)) \<noteq> None \<Longrightarrow> fst (loadCSVOnce w st) = None"
  by (auto simp: loadCSVOnce_eq Let_def split: sum.splits if_splits)

lemma handle_after_load:
  assumes "loadCSVOnce w st = (None, st')"
    and "DATA st' = Some data" and "COLUMNS st' = Some columns"
  shows "handle w rq st = handle w' rq st'"
proof (cases rq)
  case Root
  then show ?thesis
    using assms by (simp add: root_def root_after_def loadCSVOnce_loaded [OF assms(2)])
next
  case ListFields
  then show ?thesis
    using assms by (simp add: list_fields_def list_fields_after_def loadCSVOnce_loaded [OF assms(2)])
next
  case (SearchFacilities q)
  then show ?thesis
    using assms by (simp add: search_facilities_def search_facilities_after_def loadCSVOnce_loaded [OF assms(2)])
qed

lemma handle_again:
  assumes "counted st" and "handle w rq st = (res, st')" and "DATA st' \<noteq> None"
  shows "handle w' rq st' = (res, st')"
proof -
  have s: "st' = snd (loadCSVOnce w st)"
    using assms(2) handle_state [of w rq st] by simp
  then have "fst (loadCSVOnce w st) = None"
    using assms(3) loadCSVOnce_done [of w st] by simp
  with s have l: "loadCSVOnce w st = (None, st')"
    by (simp add: prod_eq_iff)
  have "counted st'"
    unfolding s using assms(1) by (rule loadCSVOnce_counted)
  with assms(3) obtain data columns
    where "DATA st' = Some data" and "COLUMNS st' = Some columns"
    by (auto simp: counted_def)
  with l have "handle w rq st = handle w' rq st'"
    by (rule handle_after_load)
  with assms(2) show ?thesis by simp
qed

lemma decimal_0: "decimal 0 = ''0''"
  by (simp add: decimal.simps [of 0] digit_def)

subsection \<open>Overlapping requests\<close>

lemma handle_after:
  "handle w rq st = (case loadCSVOnce w st of (thrown, st') \<Rightarrow> (after w rq thrown st', st'))"
  by (cases rq) (simp_all add: root_def list_fields_def search_facilities_def)

lemma step_Arrive_loaded:
  assumes "DATA st = Some data"
  shows "step w (Arrive rq) (st, waiting) = (Some (fst (handle w rq st)), (st, waiting))"
  using assms
  by (simp add: loadCSVOnce_begin_def handle_after loadCSVOnce_loaded [OF assms])

lemma step_Settle_none: "step w (Settle i) (st, []) = (None, (st, []))"
  by simp

lemma exec_Cons:
  "exec ((w, ev) # rest) c =
     (fst (step w ev c) # fst (exec rest (snd (step w ev c))),
      snd (exec rest (snd (step w ev c))))"
  by (simp split: prod.splits)

lemma exec_append:
  "exec (xs @ ys) c =
     (fst (exec xs c) @ fst (exec ys (snd (exec xs c))), snd (exec ys (snd (exec xs c))))"
proof (induction xs arbitrary: c)
  case Nil
  then show ?case by simp
next
  case (Cons a xs)
  obtain w ev where a: "a = (w, ev)" by (cases a)
  show ?case
    unfolding a append_Cons exec_Cons [of w ev] Cons.IH by simp
qed

lemma exec_loaded:
  assumes "DATA st = Some data"
  shows "snd (exec sched (st, [])) = (st, [])"
proof (induction sched)
  case Nil
  then show ?case by simp
next
  case (Cons a sched)
  obtain w ev where a: "a = (w, ev)" by (cases a)
  have "snd (step w ev (st, [])) = (st, [])"
    by (cases ev) (simp_all add: step_Arrive_loaded [OF assms] del: step.simps(1))
  with Cons a show ?case by (simp only: exec_Cons) simp
qed

lemma exec_request:
  "exec [(w, Arrive rq), (w, Settle 0)] (st, []) =
     (if DATA st \<noteq> None then [Some (fst (handle w rq st)), None]
      else [None, Some (fst (handle w rq st))],
      (snd (handle w rq st), []))"
  by (simp add: handle_after loadCSVOnce_def loadCSVOnce_begin_def split: prod.splits)

lemma serial_Cons: "serial ((w, rq) # reqs) = [(w, Arrive rq), (w, Settle 0)] @ serial reqs"
  by (simp add: serial_def)

lemma exec_serial:
  "snd (exec (serial reqs) (st, [])) = (snd (run reqs st), [])
   \<and> List.map_filter id (fst (exec (serial reqs) (st, []))) = fst (run reqs st)"
proof (induction reqs arbitrary: st)
  case Nil
  then show ?case by (simp add: serial_def)
next
  case (Cons a reqs)
  obtain w rq where a: "a = (w, rq)" by (cases a)
  show ?case
    unfolding a serial_Cons exec_append exec_request run_Cons
    using Cons.IH [of "snd (handle w rq st)"]
    by simp
qed

lemma step_bound:
  assumes "loads st + length waiting \<le> reads st"
  shows "loads (fst (snd (step w ev (st, waiting))))
           + length (snd (snd (step w ev (st, waiting))))
         \<le> reads (fst (snd (step w ev (st, waiting))))"
proof (cases ev)
  case (Arrive rq)
  then show ?thesis
    using assms by (simp add: loadCSVOnce_begin_def)
next
  case (Settle i)
  then show ?thesis
    using assms
    by (auto simp: loadCSVOnce_resume_def Let_def split: sum.splits prod.splits)
qed

lemma exec_bound:
  "loads (fst c) + length (snd c) \<le> reads (fst c) \<Longrightarrow>
   loads (fst (snd (exec sched c))) + length (snd (snd (exec sched c)))
     \<le> reads (fst (snd (exec sched c)))"
proof (induction sched arbitrary: c)
  case Nil
  then show ?case by simp
next
  case (Cons a sched)
  obtain w ev where a: "a = (w, ev)" by (cases a)
  obtain st waiting where c: "c = (st, waiting)" by (cases c)
  have "loads (fst (snd (step w ev c))) + length (snd (snd (step w ev c)))
          \<le> reads (fst (snd (step w ev c)))"
    unfolding c using Cons.prems by (intro step_bound) (simp add: c)
  then show ?case
    unfolding a exec_Cons using Cons.IH by simp
qed


lemma after_found:
  assumes "thrown = None \<longrightarrow> DATA st \<noteq> None \<and> COLUMNS st \<noteq> None"
  shows "after w rq thrown st \<noteq> not_found w"
  using assms
  by (cases rq)
    (auto simp: root_after_def list_fields_after_def search_facilities_after_def
      res_json_def res_text_def not_found_def error_obj_def search_loaded_def
      columns_not_found_def search_rows_def no_results_def
      split: option.splits sum.splits if_splits)

lemma loadCSVOnce_resume_set:
  "fst (loadCSVOnce_resume w st) = None \<longrightarrow>
     DATA (snd (loadCSVOnce_resume w st)) \<noteq> None \<and> COLUMNS (snd (loadCSVOnce_resume w st)) \<noteq> None"
  by (simp add: loadCSVOnce_resume_def Let_def split: sum.splits)

lemma loadCSVOnce_resume_coherent:
  "(DATA st = None) = (COLUMNS st = None) \<Longrightarrow>
   (DATA (snd (loadCSVOnce_resume w st)) = None)
     = (COLUMNS (snd (loadCSVOnce_resume w st)) = None)"
  by (simp add: loadCSVOnce_resume_def Let_def split: sum.splits)

lemma step_Settle:
  "step w (Settle i) (st, waiting) =
     (if i < length waiting then
        (Some (after w (waiting ! i) (fst (loadCSVOnce_resume w st))
                 (snd (loadCSVOnce_resume w st))),
         (snd (loadCSVOnce_resume w st), take i waiting @ drop (Suc i) waiting))
      else (None, (st, waiting)))"
  by (simp split: prod.splits)

lemma step_coherent:
  assumes "(DATA st = None) = (COLUMNS st = None)"
  shows "(DATA (fst (snd (step w ev (st, waiting)))) = None)
           = (COLUMNS (fst (snd (step w ev (st, waiting)))) = None)"
proof (cases ev)
  case (Arrive rq)
  then show ?thesis
    using assms by (simp add: loadCSVOnce_begin_def)
next
  case (Settle i)
  then show ?thesis
    using loadCSVOnce_resume_coherent [OF assms, of w]
    by (simp add: assms step_Settle del: step.simps)
qed

lemma step_found:
  assumes "(DATA st = None) = (COLUMNS st = None)"
  shows "fst (step w ev (st, waiting)) \<noteq> Some (not_found w)"
proof (cases ev)
  case (Arrive rq)
  show ?thesis
  proof (cases "DATA st")
    case None
    with Arrive show ?thesis by (simp add: loadCSVOnce_begin_def)
  next
    case (Some data)
    with assms have "after w rq None st \<noteq> not_found w"
      by (intro after_found) simp
    with Arrive Some show ?thesis by (simp add: loadCSVOnce_begin_def)
  qed
next
  case (Settle i)
  have "after w (waiting ! i) (fst (loadCSVOnce_resume w st)) (snd (loadCSVOnce_resume w st))
        \<noteq> not_found w"
    using loadCSVOnce_resume_set [of w st] by (rule after_found)
  with Settle show ?thesis by (simp add: step_Settle del: step.simps)
qed

lemma exec_coherent:
  "(DATA (fst c) = None) = (COLUMNS (fst c) = None) \<Longrightarrow>
   (DATA (fst (snd (exec sched c))) = None) = (COLUMNS (fst (snd (exec sched c))) = None)"
proof (induction sched arbitrary: c)
  case Nil
  then show ?case by simp
next
  case (Cons a sched)
  obtain w ev where a: "a = (w, ev)" by (cases a)
  obtain st waiting where c: "c = (st, waiting)" by (cases c)
  have "(DATA (fst (snd (step w ev c))) = None) = (COLUMNS (fst (snd (step w ev c))) = None)"
    unfolding c using Cons.prems by (intro step_coherent) (simp add: c)
  then show ?case
    unfolding a exec_Cons using Cons.IH by simp
qed

section \<open>The claims\<close>

subsection \<open>C5: the result cap\<close>

text \<open>
  C5. On a loaded dataset whose two logical columns resolve, a search with at least
  one matching row answers 200 with the array of the cleaned first 25 matching rows,
  in dataset order: the rows of \<open>matching_spec\<close> are a \<open>filter\<close> of the dataset,
  \<open>take 25\<close> keeps a prefix of them and \<open>map\<close> keeps the order. The array has
  \<open>min 25 n\<close> elements for \<open>n\<close> matches; forty matches give 25.
\<close>

theorem search_cap:
  assumes "DATA st = Some data" and "COLUMNS st = Some columns"
    and "findCol columns ALIAS_MAP_province = Some cp"
    and "findCol columns ALIAS_MAP_odhf_facility_type = Some ct"
    and "matching_spec cp ct q data \<noteq> []"
  shows "fst (search_facilities w q st) =
           res_json 200
             (Arr (map (cleaned columns (preferred columns cp ct))
                     (take 25 (matching_spec cp ct q data))))
         \<and> length (take 25 (matching_spec cp ct q data))
             = min 25 (length (matching_spec cp ct q data))"
  using assms(5)
  by (simp add: search_facilities_loaded [OF assms(1,2)]
      search_loaded_resolved [OF assms(3,4)] search_rows_eq)

theorem search_cap_witness:
  "length (matching_spec ''Province or Territory'' ''ODHF Facility Type'' qc forty_rows) = 40
   \<and> fst (search_facilities world_two qc loaded_forty) =
       res_json 200
         (Arr (replicate 25
                 (Obj [(''Facility Name'', Prim (Str ''F'')), (''City'', Prim (Str ''Laval'')),
                       (''Province or Territory'', Prim (Str ''Qc-Montreal'')),
                       (''ODHF Facility Type'', Prim (Str ''Clinic''))])))"
proof -
  have d: "DATA loaded_forty = Some forty_rows" by (simp add: loaded_forty_def)
  have c: "COLUMNS loaded_forty = Some columns_two" by (simp add: loaded_forty_def)
  have p: "findCol columns_two ALIAS_MAP_province = Some ''Province or Territory''"
    by code_simp
  have t: "findCol columns_two ALIAS_MAP_odhf_facility_type = Some ''ODHF Facility Type''"
    by code_simp
  have m: "matching_spec ''Province or Territory'' ''ODHF Facility Type'' qc forty_rows = forty_rows"
    by code_simp
  have n: "forty_rows \<noteq> []" by code_simp
  have l: "length forty_rows = 40" by (simp add: forty_rows_def)
  have k: "map (cleaned columns_two
                 (preferred columns_two ''Province or Territory'' ''ODHF Facility Type''))
             (take 25 forty_rows) =
           replicate 25
                 (Obj [(''Facility Name'', Prim (Str ''F'')), (''City'', Prim (Str ''Laval'')),
                       (''Province or Territory'', Prim (Str ''Qc-Montreal'')),
                       (''ODHF Facility Type'', Prim (Str ''Clinic''))])"
    by code_simp
  have "matching_spec ''Province or Territory'' ''ODHF Facility Type'' qc forty_rows \<noteq> []"
    using n by (simp add: m)
  from search_cap [OF d c p t this, of world_two] show ?thesis
    by (simp add: m k l)
qed

subsection \<open>C4: output normalisation\<close>

text \<open>
  C4. A cell of the dataset is a string or is not there. \<open>nullish\<close> renders it as
  \<^verbatim>\<open>null\<close> exactly when it is not there, is the empty string, is \<open>NaN\<close> or is
  \<open>nan\<close>; every other string, \<open>Nan\<close> among them, comes out unchanged. (A cell
  that is \<^verbatim>\<open>null\<close> already, which csv-parse never produces, comes out as it is.)
\<close>

theorem nullish_exact:
  "(nullish (map_option Str v) = Null)
     = (v = None \<or> v = Some [] \<or> v = Some ''NaN'' \<or> v = Some ''nan'')
   \<and> (s \<noteq> [] \<and> s \<noteq> ''NaN'' \<and> s \<noteq> ''nan'' \<longrightarrow> nullish (Some (Str s)) = Str s)
   \<and> nullish (Some (Str ''Nan'')) = Str ''Nan''
   \<and> nullish (Some Null) = Null"
  by (cases v) (auto simp: nullish_def)

theorem nullish_exact_witness:
  "nullish (Some (Str ''Laval'')) = Str ''Laval'' \<and> nullish (Some (Str ''NaN'')) = Null
   \<and> nullish None = Null"
  using nullish_exact [of None "''Laval''"] nullish_exact [of "Some ''NaN''" "''Laval''"]
  by simp

subsection \<open>C6: the projected fields\<close>

text \<open>
  C6. On a loaded dataset whose two logical columns resolve, every object of a search
  answer has exactly the fields of the priority list Facility Name, City, the
  resolved province column, the resolved facility-type column, Postal Code, Latitude,
  Longitude that are columns of the dataset, in that order, each value normalised.
  With an empty preferred list the callback emits all columns of the dataset instead
  (their names are distinct, being the keys of an object).
\<close>

theorem search_projection:
  assumes "DATA st = Some data" and "COLUMNS st = Some columns"
    and "findCol columns ALIAS_MAP_province = Some cp"
    and "findCol columns ALIAS_MAP_odhf_facility_type = Some ct"
    and "matching_spec cp ct q data \<noteq> []"
  shows "fst (search_facilities w q st) =
           res_json 200
             (Arr (map (projection
                          (filter (\<lambda>c. c \<in> set columns)
                             [''Facility Name'', ''City'', cp, ct,
                              ''Postal Code'', ''Latitude'', ''Longitude'']))
                     (take 25 (matching_spec cp ct q data))))
         \<and> (distinct columns \<longrightarrow> cleaned columns [] r = projection columns r)"
proof -
  have "cleaned columns [] r = projection columns r" if "distinct columns"
    using cleaned_projection [of "[]" columns r] that by simp
  then show ?thesis
    using assms(5) by (simp add: search_answer [OF assms(1-4)] preferred_def)
qed

theorem search_projection_witness:
  "fst (search_facilities world_two no_filter loaded_two) =
     res_json 200
       (Arr [Obj [(''Facility Name'', Prim (Str ''Hopital A'')), (''City'', Prim Null),
                  (''Province or Territory'', Prim (Str ''Quebec'')),
                  (''ODHF Facility Type'', Prim (Str ''Hospital''))],
             Obj [(''Facility Name'', Prim (Str ''Clinique B'')), (''City'', Prim (Str ''Laval'')),
                  (''Province or Territory'', Prim (Str ''Quebec'')),
                  (''ODHF Facility Type'', Prim (Str ''Clinic''))]])
   \<and> distinct columns_two
   \<and> cleaned columns_two [] (facility ''Hopital A'' ''NaN'' ''Quebec'' ''Hospital'')
       = Obj [(''Facility Name'', Prim (Str ''Hopital A'')), (''City'', Prim Null),
              (''Province or Territory'', Prim (Str ''Quebec'')),
              (''ODHF Facility Type'', Prim (Str ''Hospital''))]"
proof -
  have d: "DATA loaded_two = Some two_rows" by (simp add: loaded_two_def)
  have c: "COLUMNS loaded_two = Some columns_two" by (simp add: loaded_two_def)
  have p: "findCol columns_two ALIAS_MAP_province = Some ''Province or Territory''"
    by code_simp
  have t: "findCol columns_two ALIAS_MAP_odhf_facility_type = Some ''ODHF Facility Type''"
    by code_simp
  have n: "matching_spec ''Province or Territory'' ''ODHF Facility Type'' no_filter two_rows
           \<noteq> []"
    by code_simp
  have k: "map (projection
                  (filter (\<lambda>c. c \<in> set columns_two)
                     [''Facility Name'', ''City'', ''Province or Territory'',
                      ''ODHF Facility Type'', ''Postal Code'', ''Latitude'', ''Longitude'']))
             (take 25 (matching_spec ''Province or Territory'' ''ODHF Facility Type''
                         no_filter two_rows)) =
           [Obj [(''Facility Name'', Prim (Str ''Hopital A'')), (''City'', Prim Null),
                  (''Province or Territory'', Prim (Str ''Quebec'')),
                  (''ODHF Facility Type'', Prim (Str ''Hospital''))],
             Obj [(''Facility Name'', Prim (Str ''Clinique B'')), (''City'', Prim (Str ''Laval'')),
                  (''Province or Territory'', Prim (Str ''Quebec'')),
                  (''ODHF Facility Type'', Prim (Str ''Clinic''))]]"
    by code_simp
  have e: "projection columns_two (facility ''Hopital A'' ''NaN'' ''Quebec'' ''Hospital'')
           = Obj [(''Facility Name'', Prim (Str ''Hopital A'')), (''City'', Prim Null),
              (''Province or Territory'', Prim (Str ''Quebec'')),
              (''ODHF Facility Type'', Prim (Str ''Hospital''))]"
    by code_simp
  have i: "distinct columns_two" by code_simp
  from search_projection [OF d c p t n, of world_two
      "facility ''Hopital A'' ''NaN'' ''Quebec'' ''Hospital''"] i
  show ?thesis by (simp only: k e)
qed

subsection \<open>C7: no match\<close>

text \<open>
  C7. On a loaded dataset whose two logical columns resolve, a search that no row
  matches answers 200 with a single object whose only field is \<open>message\<close>: not an
  error status, not an empty array. The state is left as it was.
\<close>

theorem search_no_match:
  assumes "DATA st = Some data" and "COLUMNS st = Some columns"
    and "findCol columns ALIAS_MAP_province = Some cp"
    and "findCol columns ALIAS_MAP_odhf_facility_type = Some ct"
    and "matching_spec cp ct q data = []"
  shows "search_facilities w q st = (no_results, st)
         \<and> status no_results = 200
         \<and> (\<exists>m. body no_results = Json (Obj [(''message'', Prim (Str m))]))
         \<and> body no_results \<noteq> Json (Arr [])"
  using assms(5)
  by (simp add: search_facilities_loaded [OF assms(1,2)]
      search_loaded_resolved [OF assms(3,4)] search_rows_eq no_results_def res_json_def)

theorem search_no_match_witness:
  "matching_spec ''Province or Territory'' ''ODHF Facility Type'' yukon two_rows = []
   \<and> search_facilities world_two yukon loaded_two = (no_results, loaded_two)
   \<and> status no_results = 200"
proof -
  have d: "DATA loaded_two = Some two_rows" by (simp add: loaded_two_def)
  have c: "COLUMNS loaded_two = Some columns_two" by (simp add: loaded_two_def)
  have p: "findCol columns_two ALIAS_MAP_province = Some ''Province or Territory''"
    by code_simp
  have t: "findCol columns_two ALIAS_MAP_odhf_facility_type = Some ''ODHF Facility Type''"
    by code_simp
  have m: "matching_spec ''Province or Territory'' ''ODHF Facility Type'' yukon two_rows = []"
    by code_simp
  from search_no_match [OF d c p t m, of world_two] m show ?thesis by simp
qed

subsection \<open>C9: a resolved column is a column\<close>

text \<open>
  C9. Whatever \<open>findCol\<close> returns is one of the actual columns. So once both logical
  columns resolve, both are in the preferred list, the list is not empty, and the
  branch that emits all columns is not taken.
\<close>

theorem findCol_result_is_column:
  "(findCol cols cands = Some c \<longrightarrow> c \<in> set cols)
   \<and> (findCol columns ALIAS_MAP_province = Some cp
        \<and> findCol columns ALIAS_MAP_odhf_facility_type = Some ct
      \<longrightarrow> cp \<in> set (preferred columns cp ct) \<and> ct \<in> set (preferred columns cp ct)
          \<and> preferred columns cp ct \<noteq> [])"
  using findCol_mem [of cols cands c] preferred_resolved [of columns cp ct] by auto

theorem findCol_result_is_column_witness:
  "findCol columns_two ALIAS_MAP_province = Some ''Province or Territory''
   \<and> findCol columns_two ALIAS_MAP_odhf_facility_type = Some ''ODHF Facility Type''
   \<and> ''Province or Territory'' \<in> set columns_two
   \<and> preferred columns_two ''Province or Territory'' ''ODHF Facility Type'' \<noteq> []"
proof -
  have p: "findCol columns_two ALIAS_MAP_province = Some ''Province or Territory''"
    by code_simp
  have t: "findCol columns_two ALIAS_MAP_odhf_facility_type = Some ''ODHF Facility Type''"
    by code_simp
  from findCol_result_is_column [of columns_two ALIAS_MAP_province "''Province or Territory''"
      columns_two "''Province or Territory''" "''ODHF Facility Type''"] p t
  show ?thesis by simp
qed

subsection \<open>C1: the absent dataset\<close>

text \<open>
  C1, as stated: when the file is missing, unreadable or without records,
  \<open>/list_fields\<close> and \<open>/search_facilities\<close> answer 400 with an error that names
  the file, and the root endpoint answers 500. Evaluated on a fresh process without
  the file, and on one whose file has no records: without the file the two endpoints
  answer 500; with a file of no records \<open>/list_fields\<close> answers 200 with an empty
  column list, \<open>/search_facilities\<close> answers the 400 of unresolved columns, which
  does not name the file, and the root endpoint answers 200.
\<close>

theorem absent_dataset_answers:
  "fst (list_fields world_missing initial)
     = res_json 500 (error_obj ''ENOENT: no such file or directory, open /app/odhf_v1.1.csv'')
   \<and> status (fst (search_facilities world_missing no_filter initial)) = 500
   \<and> status (fst (root world_missing initial)) = 500
   \<and> fst (list_fields world_empty initial) = res_json 200 (Obj [(''columns'', Arr [])])
   \<and> fst (search_facilities world_empty no_filter initial) = columns_not_found []
   \<and> status (fst (root world_empty initial)) = 200"
  by code_simp

text \<open>
  C1, amended. On a process that has not loaded the dataset, the root endpoint
  answers 500 with the text \<open>Startup error: \<close> and the error's message when the
  file cannot be read or cannot be parsed, and answers 200 reporting \<open>rows=0\<close> when
  the file parses to no records. (The 400 of the two other endpoints is written in
  the handlers but taken in no reachable state: \<open>list_fields_no_400\<close>,
  \<open>search_facilities_found\<close>, and \<open>step_found\<close> with \<open>exec_coherent\<close> for
  requests that overlap.)
\<close>

theorem root_absent_dataset:
  "(DATA st = None \<and> readFile w (CSV_FILE w) = Inl e
      \<longrightarrow> fst (root w st) = res_text 500 (''Startup error: '' @ error_text e))
   \<and> (DATA st = None \<and> readFile w (CSV_FILE w) = Inr text \<and> parse w text = Inl e
      \<longrightarrow> fst (root w st) = res_text 500 (''Startup error: '' @ error_text e))
   \<and> (DATA st = None \<and> readFile w (CSV_FILE w) = Inr text \<and> parse w text = Inr []
      \<longrightarrow> fst (root w st)
          = res_text 200 ''ODHF MCP Server (Node) is running! csv_found=true rows=0'')"
  by (simp add: root_def root_after_def loadCSVOnce_eq Let_def decimal_0)

theorem root_absent_dataset_witness:
  "fst (root world_missing initial)
     = res_text 500
         ''Startup error: ENOENT: no such file or directory, open /app/odhf_v1.1.csv''
   \<and> fst (root world_empty initial)
     = res_text 200 ''ODHF MCP Server (Node) is running! csv_found=true rows=0''"
proof -
  let ?e = "\<lparr>name = ''Error'',
             message = ''ENOENT: no such file or directory, open /app/odhf_v1.1.csv''\<rparr>"
  have d: "DATA initial = None"
    by (simp add: initial_def)
  have r: "readFile world_missing (CSV_FILE world_missing) = Inl ?e"
    by (simp add: world_missing_def csv_path_def)
  have t: "''Startup error: '' @ error_text ?e
           = ''Startup error: ENOENT: no such file or directory, open /app/odhf_v1.1.csv''"
    by (simp add: error_text_def)
  have r': "readFile world_empty (CSV_FILE world_empty) = Inr []"
    by (simp add: world_empty_def)
  have p': "parse world_empty [] = Inr []"
    by (simp add: world_empty_def)
  from d r have dr: "DATA initial = None
                     \<and> readFile world_missing (CSV_FILE world_missing) = Inl ?e"
    by (rule conjI)
  from d r' p' have drp: "DATA initial = None
      \<and> readFile world_empty (CSV_FILE world_empty) = Inr []
      \<and> parse world_empty [] = Inr []"
    by (intro conjI)
  have 1: "fst (root world_missing initial) = res_text 500 (''Startup error: '' @ error_text ?e)"
    by (rule mp [OF root_absent_dataset [THEN conjunct1] dr])
  have 2: "fst (root world_empty initial)
           = res_text 200 ''ODHF MCP Server (Node) is running! csv_found=true rows=0''"
    by (rule mp [OF root_absent_dataset [THEN conjunct2, THEN conjunct2] drp])
  from 1 2 show ?thesis by (simp only: t)
qed

subsection \<open>C2: column resolution\<close>

text \<open>
  C2, as stated, prefers an exact match anywhere in the alias set to an earlier
  case-insensitive match. \<open>findCol\<close> does not: with the columns \<open>PROVINCE\<close> and
  \<open>prov\<close> it stops at the first alias, \<open>province\<close>, which matches \<open>PROVINCE\<close> in
  lower case, although the later alias \<open>prov\<close> is a column as it stands.
\<close>

theorem findCol_earlier_alias_wins:
  "findCol [''PROVINCE'', ''prov''] ALIAS_MAP_province = Some ''PROVINCE''
   \<and> resolveColumn_spec [''PROVINCE'', ''prov''] ALIAS_MAP_province = Some ''prov''"
  by code_simp

text \<open>
  C2, amended. \<open>findCol\<close> walks the aliases in insertion order and stops at the first
  alias that matches an actual column exactly or in lower case. For that alias it
  returns the alias itself when it is an actual column, and otherwise the last actual
  column with the same lower-case form. It returns none when no alias matches in
  either way.
\<close>

theorem findCol_first_match:
  "findCol cols cands =
     (case find (\<lambda>a. a \<in> set cols \<or> toLowerCase a \<in> set (map toLowerCase cols)) cands of
        None \<Rightarrow> None
      | Some a \<Rightarrow>
          if a \<in> set cols then Some a
          else find (\<lambda>c. toLowerCase c = toLowerCase a) (rev cols))"
proof (induction cands)
  case Nil
  then show ?case by simp
next
  case (Cons cand rest)
  show ?case
  proof (cases "cand \<in> set cols")
    case True
    then show ?thesis by simp
  next
    case False
    show ?thesis
    proof (cases "lower cols (toLowerCase cand)")
      case None
      then have "toLowerCase cand \<notin> set (map toLowerCase cols)" by (simp add: lower_None)
      with False None Cons.IH show ?thesis by simp
    next
      case (Some m)
      then have "m \<noteq> []" using False by (rule lower_nonempty [rotated])
      moreover have "toLowerCase cand \<in> set (map toLowerCase cols)"
        using Some lower_None [of cols "toLowerCase cand"] by auto
      ultimately show ?thesis using False Some by (simp add: lower_find)
    qed
  qed
qed

theorem findCol_first_match_witness:
  "findCol [''PROVINCE'', ''prov''] ALIAS_MAP_province = Some ''PROVINCE''
   \<and> findCol [''province'', ''PROVINCE''] [''PROVINCE''] = Some ''PROVINCE''
   \<and> findCol [''City''] ALIAS_MAP_province = None"
proof -
  have 1: "(case find (\<lambda>a. a \<in> set [''PROVINCE'', ''prov'']
                        \<or> toLowerCase a \<in> set (map toLowerCase [''PROVINCE'', ''prov'']))
                ALIAS_MAP_province of
              None \<Rightarrow> None
            | Some a \<Rightarrow>
                if a \<in> set [''PROVINCE'', ''prov''] then Some a
                else find (\<lambda>c. toLowerCase c = toLowerCase a) (rev [''PROVINCE'', ''prov'']))
           = Some ''PROVINCE''"
    by code_simp
  have 2: "(case find (\<lambda>a. a \<in> set [''province'', ''PROVINCE'']
                        \<or> toLowerCase a \<in> set (map toLowerCase [''province'', ''PROVINCE'']))
                [''PROVINCE''] of
              None \<Rightarrow> None
            | Some a \<Rightarrow>
                if a \<in> set [''province'', ''PROVINCE''] then Some a
                else find (\<lambda>c. toLowerCase c = toLowerCase a) (rev [''province'', ''PROVINCE'']))
           = Some ''PROVINCE''"
    by code_simp
  have 3: "(case find (\<lambda>a. a \<in> set [''City'']
                        \<or> toLowerCase a \<in> set (map toLowerCase [''City'']))
                ALIAS_MAP_province of
              None \<Rightarrow> None
            | Some a \<Rightarrow>
                if a \<in> set [''City''] then Some a
                else find (\<lambda>c. toLowerCase c = toLowerCase a) (rev [''City'']))
           = None"
    by code_simp
  from 1 2 3 show ?thesis
    by (simp only: findCol_first_match)
qed

subsection \<open>C3: filtering\<close>

text \<open>
  C3. The rows left after the two filter steps are exactly the rows of the dataset
  that both trimmed query parameters keep, in dataset order: a parameter keeps a
  row when it is empty after trimming, or when the lower-cased text of the resolved
  column contains its lower-cased value (\<open>keeps_iff\<close>). Two parameters that are
  absent or empty after trimming leave the dataset as it is. (\<open>trim_parts\<close> and
  \<open>trim_ends\<close> say what trimming removes.)
\<close>

theorem filtered_conjunctive:
  "filtered cp ct q data = Inr (matching_spec cp ct q data)
   \<and> (query_text (province q) = [] \<and> query_text (facility_type q) = []
        \<longrightarrow> filtered cp ct q data = Inr data)
   \<and> query_text None = []"
proof -
  have "matching_spec cp ct q data = data"
    if "query_text (province q) = []" and "query_text (facility_type q) = []"
    unfolding matching_spec_query_text using that by (simp add: keeps_def)
  then show ?thesis
    by (simp add: filtered_eq query_text_None)
qed

theorem filtered_conjunctive_witness:
  "filtered ''Province or Territory'' ''ODHF Facility Type'' quebec_hosp two_rows
     = Inr [facility ''Hopital A'' ''NaN'' ''Quebec'' ''Hospital'']
   \<and> query_text (province no_filter) = [] \<and> query_text (facility_type no_filter) = []
   \<and> filtered ''Province or Territory'' ''ODHF Facility Type'' no_filter two_rows = Inr two_rows"
proof -
  have m: "matching_spec ''Province or Territory'' ''ODHF Facility Type'' quebec_hosp two_rows
           = [facility ''Hopital A'' ''NaN'' ''Quebec'' ''Hospital'']"
    by code_simp
  have p: "query_text (province no_filter) = []"
    by code_simp
  have f: "query_text (facility_type no_filter) = []"
    by code_simp
  from p f have pf: "query_text (province no_filter) = []
                     \<and> query_text (facility_type no_filter) = []"
    by (rule conjI)
  have 1: "filtered ''Province or Territory'' ''ODHF Facility Type'' quebec_hosp two_rows
           = Inr [facility ''Hopital A'' ''NaN'' ''Quebec'' ''Hospital'']"
    unfolding m [symmetric] by (rule filtered_conjunctive [THEN conjunct1])
  have 2: "filtered ''Province or Territory'' ''ODHF Facility Type'' no_filter two_rows
           = Inr two_rows"
    by (rule mp [OF filtered_conjunctive [THEN conjunct2, THEN conjunct1] pf])
  from 1 p f 2 show ?thesis by (intro conjI)
qed

subsection \<open>C8: loaded once, never changed\<close>

text \<open>
  C8, as stated: the dataset is loaded at most once per process and does not change
  afterwards, so every call observes the same row count. Requests that overlap at the
  \<^verbatim>\<open>await\<close> of the loader break this. In \<open>overlap\<close> two requests arrive before
  the first read settles: both pass the guard and wait. The first read settles and
  its loader assigns two rows; a root request that arrives then reports \<open>rows=2\<close>.
  The second read settles, on a file that has one row by now: its loader, which does
  not test the guard again, assigns that row, and the root endpoint reports
  \<open>rows=1\<close> from then on. \<^verbatim>\<open>DATA\<close> has been assigned twice.
\<close>

theorem overlapping_requests_load_twice:
  "fst (exec overlap (initial, [])) =
     [None, None,
      Some (res_json 200 (Obj [(''columns'', strings columns_two)])),
      Some (res_text 200 ''ODHF MCP Server (Node) is running! csv_found=true rows=2''),
      Some (res_text 200 ''ODHF MCP Server (Node) is running! csv_found=true rows=1''),
      Some (res_text 200 ''ODHF MCP Server (Node) is running! csv_found=true rows=1'')]
   \<and> snd (exec (take 3 overlap) (initial, [])) =
       (\<lparr>DATA = Some two_rows, COLUMNS = Some columns_two,
         reads = 2, parses = 1, loads = 1\<rparr>, [Root])
   \<and> snd (exec overlap (initial, [])) =
       (\<lparr>DATA = Some one_row, COLUMNS = Some columns_two,
         reads = 2, parses = 2, loads = 2\<rparr>, [])"
  by code_simp

text \<open>
  C8, amended. Once \<^verbatim>\<open>DATA\<close> is set, a call of the loader that starts then
  returns at once, in any world and whatever else is waiting: the state, with its
  counters of reads and parses, stays as it is, and the handler answers from it. No
  query operation changes the stored records or the column list. With \<^verbatim>\<open>DATA\<close>
  set and no loader waiting for its read, no sequence of events changes the state.
  When requests do not overlap (each is answered before the next arrives),
  \<^verbatim>\<open>DATA\<close> is assigned at most once from the start of the process, and the request
  that completed the load gets the answer that every repetition of it gets
  afterwards. When they overlap, there are at most as many assignments as loader
  calls that found \<^verbatim>\<open>DATA\<close> not set.
\<close>

theorem loaded_once_without_overlap:
  "(DATA st = Some data \<longrightarrow>
      loadCSVOnce w st = (None, st)
      \<and> snd (handle w rq st) = st
      \<and> run reqs st = (map (\<lambda>(w, rq). fst (handle w rq st)) reqs, st)
      \<and> step w (Arrive rq) (st, waiting) = (Some (fst (handle w rq st)), (st, waiting))
      \<and> snd (exec sched (st, [])) = (st, []))
   \<and> (counted st \<and> handle w rq st = (res, st') \<and> DATA st' \<noteq> None \<longrightarrow>
        run (replicate n (w', rq)) st' = (replicate n res, st'))
   \<and> loads (snd (run reqs initial)) \<le> 1
   \<and> snd (exec (serial reqs) (st, [])) = (snd (run reqs st), [])
   \<and> List.map_filter id (fst (exec (serial reqs) (st, []))) = fst (run reqs st)
   \<and> loads (fst (snd (exec sched (initial, []))))
        + length (snd (snd (exec sched (initial, []))))
      \<le> reads (fst (snd (exec sched (initial, []))))"
proof -
  have "run (replicate n (w', rq)) st' = (replicate n res, st')"
    if c: "counted st" and h: "handle w rq st = (res, st')" and d: "DATA st' \<noteq> None"
  proof -
    from d obtain data' where d': "DATA st' = Some data'" by auto
    have "fst (handle w' rq st') = res"
      using handle_again [OF c h d, of w'] by simp
    then show ?thesis
      by (simp add: run_loaded [OF d'])
  qed
  moreover have "loads (snd (run reqs initial)) \<le> 1"
    using run_counted [OF initial_counted, of reqs] by (simp add: counted_def)
  moreover have "loads (fst (snd (exec sched (initial, []))))
        + length (snd (snd (exec sched (initial, []))))
      \<le> reads (fst (snd (exec sched (initial, []))))"
    by (rule exec_bound) (simp add: initial_def)
  ultimately show ?thesis
    using exec_serial [of reqs st]
    by (simp add: loadCSVOnce_loaded handle_loaded run_loaded step_Arrive_loaded exec_loaded
        del: step.simps)
qed

theorem loaded_once_without_overlap_witness:
  "handle world_two ListFields initial
     = (res_json 200 (Obj [(''columns'', strings columns_two)]), loaded_two)
   \<and> run (replicate 3 (world_missing, ListFields)) loaded_two
     = (replicate 3 (res_json 200 (Obj [(''columns'', strings columns_two)])), loaded_two)
   \<and> loadCSVOnce world_missing loaded_two = (None, loaded_two)
   \<and> snd (exec overlap (loaded_two, [])) = (loaded_two, [])"
proof -
  have c: "counted initial" by (rule initial_counted)
  have h: "handle world_two ListFields initial
           = (res_json 200 (Obj [(''columns'', strings columns_two)]), loaded_two)"
    by code_simp
  have d: "DATA loaded_two \<noteq> None" by (simp add: loaded_two_def)
  have d': "DATA loaded_two = Some two_rows" by (simp add: loaded_two_def)
  from c h d have chd: "counted initial
      \<and> handle world_two ListFields initial
           = (res_json 200 (Obj [(''columns'', strings columns_two)]), loaded_two)
      \<and> DATA loaded_two \<noteq> None"
    by (intro conjI)
  have 1: "run (replicate 3 (world_missing, ListFields)) loaded_two
     = (replicate 3 (res_json 200 (Obj [(''columns'', strings columns_two)])), loaded_two)"
    by (rule mp [OF loaded_once_without_overlap [THEN conjunct2, THEN conjunct1] chd])
  have 2: "loadCSVOnce world_missing loaded_two = (None, loaded_two)"
    by (rule mp [OF loaded_once_without_overlap [THEN conjunct1] d', THEN conjunct1])
  have 3: "snd (exec overlap (loaded_two, [])) = (loaded_two, [])"
    by (rule mp [OF loaded_once_without_overlap [THEN conjunct1] d', THEN conjunct2,
          THEN conjunct2, THEN conjunct2, THEN conjunct2])
  from h 1 2 3 show ?thesis by (intro conjI)
qed

subsection \<open>C10: cells that are null or missing\<close>

text \<open>
  C10. A cell that is \<^verbatim>\<open>null\<close> or not there is compared as the empty string: the
  callback answers for it whether the filter value is empty, a filter step with a
  non-empty value drops the row, a step with an empty value keeps every row, and
  neither a step nor the two steps together ever throw.
\<close>

theorem missing_cell_is_empty:
  assumes "get r col = None \<or> get r col = Some Null"
  shows "or_empty (get r col) = Str []
         \<and> cell_matches col p r = Inr (p = [])
         \<and> (v \<noteq> [] \<longrightarrow> filter_step col v (xs @ r # ys) = filter_step col v (xs @ ys))
         \<and> filter_step col [] rs = Inr rs
         \<and> (\<exists>rs'. filter_step col v rs = Inr rs')
         \<and> (\<exists>rs'. filtered cp ct q data = Inr rs')"
proof -
  have e: "cell_text (get r col) = []"
    using assms by (auto simp: cell_text_def)
  have "\<not> keeps col v r" if "v \<noteq> []"
    using that by (simp add: keeps_def e toLowerCase_Nil toLowerCase_eq_Nil)
  then have "filter_step col v (xs @ r # ys) = filter_step col v (xs @ ys)" if "v \<noteq> []"
    using that by (simp add: filter_step_eq)
  moreover have "or_empty (get r col) = Str []"
    using assms by (auto simp: or_empty_def)
  moreover have "filter_step col [] rs = Inr rs"
    by (simp add: filter_step_def)
  moreover have "cell_matches col p r = Inr (p = [])"
    by (simp add: cell_matches_eq e toLowerCase_Nil)
  ultimately show ?thesis
    by (simp add: filter_step_eq filtered_eq)
qed

theorem missing_cell_is_empty_witness:
  "get no_province ''Province'' = Some Null
   \<and> filter_step ''Province'' ''qc'' [no_province] = Inr []
   \<and> filter_step ''Province'' [] [no_province] = Inr [no_province]
   \<and> get no_province ''Facility Type'' = None
   \<and> filter_step ''Facility Type'' ''clinic'' [no_province] = Inr []"
proof -
  have n: "get no_province ''Province'' = Some Null"
    by code_simp
  have u: "get no_province ''Facility Type'' = None"
    by code_simp
  have a: "get no_province ''Province'' = None \<or> get no_province ''Province'' = Some Null"
    using n by simp
  have b: "get no_province ''Facility Type'' = None
           \<or> get no_province ''Facility Type'' = Some Null"
    using u by simp
  have q: "''qc'' \<noteq> []" and c: "''clinic'' \<noteq> []"
    by simp_all
  have z: "filter_step col v [] = Inr []" for col v
    by (simp add: filter_step_def)
  have 1: "filter_step ''Province'' ''qc'' ([] @ no_province # []) = Inr []"
    using missing_cell_is_empty [OF a, of "[]" "''qc''" "[]" "[]" "[]"] q
    by (simp only: z append_Nil) simp
  have 2: "filter_step ''Province'' [] [no_province] = Inr [no_province]"
    using missing_cell_is_empty [OF a, of "[]" "''qc''" "[]" "[]" "[no_province]"]
    by blast
  have 3: "filter_step ''Facility Type'' ''clinic'' ([] @ no_province # []) = Inr []"
    using missing_cell_is_empty [OF b, of "[]" "''clinic''" "[]" "[]" "[]"] c
    by (simp only: z append_Nil) simp
  from 1 2 3 n u show ?thesis by simp
qed

end
